theory Spec2Isabelle
  imports Main "HOL-Library.Word"
begin

unbundle bit_operations_syntax

section \<open>Machine types\<close>

text \<open>
  \<open>uint8_t\<close> is an 8-bit word. The C expressions of the codec promote their
  \<open>uint8_t\<close> operands to \<open>int\<close> before masking and shifting; every value that
  occurs is non-negative and below \<open>2 ^ 8\<close>, so \<open>int\<close> is modelled by a 32-bit
  word and the conversion back to \<open>uint8_t\<close> by \<open>ucast\<close>.
\<close>

type_synonym uint8_t = "8 word"
type_synonym c_int = "32 word"

section \<open>The bit-pack writer (\<open>save_large_array_to_file\<close>)\<close>

text \<open>
  One iteration's update of the pending byte,
  \<^verbatim>\<open>buffer |= (arr[i] & 0x03) << (6 - bit_position);\<close>
  with the integer promotions written out. \<open>bit_position\<close> only takes the
  values 0, 2, 4 and 6 here, so it is a \<open>nat\<close>.
\<close>

definition pack_bits :: "uint8_t \<Rightarrow> nat \<Rightarrow> uint8_t \<Rightarrow> uint8_t" where
  "pack_bits buffer bit_position a =
     ucast ((ucast buffer :: c_int) OR push_bit (6 - bit_position) ((ucast a :: c_int) AND 0x03))"

text \<open>
  The \<open>for\<close> loop over \<open>arr[0..size)\<close>. The state is the bytes written to the
  file so far, the pending \<open>buffer\<close> and \<open>bit_position\<close>; the array is the list of
  its \<open>size\<close> elements.
\<close>

fun save_loop :: "uint8_t list \<Rightarrow> uint8_t list \<Rightarrow> uint8_t \<Rightarrow> nat \<Rightarrow> uint8_t list \<times> uint8_t \<times> nat" where
  "save_loop [] written buffer bit_position = (written, buffer, bit_position)"
| "save_loop (a # arr) written buffer bit_position =
     (let buffer = pack_bits buffer bit_position a;
          bit_position = bit_position + 2
      in if bit_position = 8
         then save_loop arr (written @ [buffer]) 0 0
         else save_loop arr written buffer bit_position)"

text \<open>The write of the remaining bits after the loop.\<close>

fun save_flush :: "uint8_t list \<times> uint8_t \<times> nat \<Rightarrow> uint8_t list" where
  "save_flush (written, buffer, bit_position) =
     (if bit_position > 0 then written @ [buffer] else written)"

text \<open>The bytes a successful call writes: \<open>buffer = 0\<close>, \<open>bit_position = 0\<close> at the start.\<close>

definition pack :: "uint8_t list \<Rightarrow> uint8_t list" where
  "pack arr = save_flush (save_loop arr [] 0 0)"

section \<open>The bit-pack reader (\<open>read_large_array_from_file\<close>)\<close>

text \<open>
  \<^verbatim>\<open>fread(&buffer, 1, 1, file)\<close> on the rest of the file: at the end of the file
  nothing is read and \<open>buffer\<close> keeps its value (the return value is ignored
  by the source).
\<close>

fun fread1 :: "uint8_t list \<Rightarrow> uint8_t \<Rightarrow> uint8_t \<times> uint8_t list" where
  "fread1 [] buffer = (buffer, [])"
| "fread1 (b # file) buffer = (b, file)"

text \<open>\<^verbatim>\<open>(buffer >> (6 - bit_position)) & 0x03\<close>, stored into a \<open>uint8_t\<close>.\<close>

definition extract_bits :: "uint8_t \<Rightarrow> nat \<Rightarrow> uint8_t" where
  "extract_bits buffer bit_position =
     ucast (drop_bit (6 - bit_position) (ucast buffer :: c_int) AND 0x03)"

text \<open>
  The \<open>for\<close> loop for the remaining \<open>size - i\<close> elements; the result is the
  list of the values stored into \<open>arr[i..size)\<close>.
\<close>

fun read_loop :: "uint8_t list \<Rightarrow> uint8_t \<Rightarrow> nat \<Rightarrow> nat \<Rightarrow> uint8_t list" where
  "read_loop file buffer bit_position 0 = []"
| "read_loop file buffer bit_position (Suc n) =
     (let (buffer, file) = (if bit_position = 0 then fread1 file buffer else (buffer, file));
          v = extract_bits buffer bit_position;
          bit_position = bit_position + 2;
          bit_position = (if bit_position = 8 then 0 else bit_position)
      in v # read_loop file buffer bit_position n)"

definition unpack :: "uint8_t list \<Rightarrow> nat \<Rightarrow> uint8_t list" where
  "unpack bytes n = read_loop bytes 0 0 n"


text \<open>
  The byte that holds four codes, first code in the two most significant
  bits: the value \<^verbatim>\<open>(c0<<6)|(c1<<4)|(c2<<2)|c3\<close> after masking each code to
  its two low bits. It only serves to state the lemmas about full bytes.
\<close>

definition byte4 :: "uint8_t \<Rightarrow> uint8_t \<Rightarrow> uint8_t \<Rightarrow> uint8_t \<Rightarrow> uint8_t" where
  "byte4 c0 c1 c2 c3 =
     push_bit 6 (c0 AND 3) OR push_bit 4 (c1 AND 3) OR push_bit 2 (c2 AND 3) OR (c3 AND 3)"

section \<open>Files\<close>

text \<open>
  The files the functions open: the contents of every existing file, and
  whether \<^verbatim>\<open>fopen(filename, "wb")\<close> succeeds on a name. A file that exists can
  be opened for reading, and a write to an open file succeeds. Messages printed
  to \<open>stdout\<close> and \<open>stderr\<close> are not part of the model.
\<close>

record filesystem =
  files :: "string \<rightharpoonup> uint8_t list"
  writable :: "string \<Rightarrow> bool"

text \<open>
  \<open>save_large_array_to_file\<close>: when the file cannot be opened the function
  returns without writing; otherwise the file is created or truncated and
  receives the packed bytes of \<open>arr[0..size)\<close>. The caller passes an array of at
  least \<open>size\<close> elements.
\<close>

definition save_large_array_to_file :: "filesystem \<Rightarrow> string \<Rightarrow> uint8_t list \<Rightarrow> nat \<Rightarrow> filesystem" where
  "save_large_array_to_file fs filename arr size_arr =
     (if \<not> writable fs filename then fs
      else fs\<lparr>files := (files fs)(filename \<mapsto> pack (take size_arr arr))\<rparr>)"

text \<open>
  \<open>read_large_array_from_file\<close>: when the file cannot be opened \<open>arr\<close> is left
  as it was; otherwise \<open>arr[0..size)\<close> is overwritten with the unpacked values.
\<close>

definition read_large_array_from_file :: "filesystem \<Rightarrow> string \<Rightarrow> uint8_t list \<Rightarrow> nat \<Rightarrow> uint8_t list" where
  "read_large_array_from_file fs filename arr size_arr =
     (case files fs filename of
        None \<Rightarrow> arr
      | Some bytes \<Rightarrow> unpack bytes size_arr @ drop size_arr arr)"

section \<open>The symbol codec (\<open>base_to_code\<close>)\<close>

definition base_to_code :: "char \<Rightarrow> uint8_t" where
  "base_to_code base =
     (if base = CHR ''A'' then 0
      else if base = CHR ''C'' then 1
      else if base = CHR ''G'' then 2
      else if base = CHR ''T'' then 3
      else 255)"

section \<open>The record-batch driver (\<open>process_fastq\<close>)\<close>

text \<open>The two ways \<open>process_fastq\<close> calls \<^verbatim>\<open>exit(EXIT_FAILURE)\<close>.\<close>

datatype exit_failure = Failed_to_open_FASTQ | Invalid_base string

text \<open>
  \<^verbatim>\<open>seq[strcspn(seq, "\r\n")] = '\0'\<close>. The argument is the bytes \<open>gzgets\<close> put
  into \<open>seq\<close> before its terminating NUL; they may hold NUL bytes of the
  source. \<open>strcspn\<close> stops at the first carriage return or line feed and, like
  every C string function, at the first NUL. The result is the C string that
  \<open>strlen\<close>, \<open>strchr\<close> and the encoding loop see afterwards: the bytes before
  the first carriage return, line feed or NUL.
\<close>

definition strip_newline :: "string \<Rightarrow> string" where
  "strip_newline seq =
     takeWhile (\<lambda>c. c \<noteq> CHR 0x0D \<and> c \<noteq> CHR 0x0A \<and> c \<noteq> CHR 0x00) seq"

text \<open>
  \<open>seq[i]\<close> on the stripped line: a character of the line, or the terminating
  NUL at \<open>i = strlen(seq)\<close>. The encoding loop below stops at the NUL, so no
  index beyond it is ever read.
\<close>

definition seq_at :: "string \<Rightarrow> nat \<Rightarrow> char" where
  "seq_at seq i = (if i < length seq then seq ! i else CHR 0x00)"

text \<open>
  The inner \<open>for\<close> loop, from index \<open>i\<close>: each code is appended to
  \<open>encoded_reads\<close> (whose length is \<open>total_bases\<close>); code 255 ends the process.
\<close>

function encode_bases :: "string \<Rightarrow> nat \<Rightarrow> nat \<Rightarrow> uint8_t list \<Rightarrow> exit_failure + uint8_t list" where
  "encode_bases seq kmer_length i encoded_reads =
     (if i < kmer_length
      then (let code = base_to_code (seq_at seq i)
            in if code = 255 then Inl (Invalid_base seq)
               else encode_bases seq kmer_length (i + 1) (encoded_reads @ [code]))
      else Inr encoded_reads)"
  by pat_completeness auto
termination
  by (relation "measure (\<lambda>(seq, kmer_length, i, encoded_reads). kmer_length - i)") auto

declare encode_bases.simps [simp del]

text \<open>
  What one iteration of the \<open>while\<close> loop does with a record's sequence line:
  \<open>continue\<close> (the record is skipped), \<open>exit\<close>, or the new \<open>encoded_reads\<close>.
\<close>

datatype record_outcome = Skipped | Exited exit_failure | Encoded "uint8_t list"

definition process_record :: "nat \<Rightarrow> string \<Rightarrow> uint8_t list \<Rightarrow> record_outcome" where
  "process_record kmer_length line encoded_reads =
     (let seq = strip_newline line;
          len = length seq
      in if len < 32 \<or> CHR ''N'' \<in> set seq then Skipped
         else (case encode_bases seq kmer_length 0 encoded_reads of
                 Inl e \<Rightarrow> Exited e
               | Inr encoded_reads \<Rightarrow> Encoded encoded_reads))"

text \<open>
  The \<open>while\<close> loop over the records of the source, each given by its sequence
  line as \<open>gzgets\<close> returns it (the identifier, separator and quality lines are read
  and ignored). The loop ends at the end of the source or when \<open>total_reads\<close>
  equals \<open>num_reads\<close> after an accepted record.

  The source is taken to consist of complete four-line records whose lines fit
  the 1024-byte line buffers. \<open>encoded_reads\<close> is the list of the codes stored
  so far, so \<open>total_bases\<close> is its length; the allocation of
  \<open>kmer_length * num_reads\<close> bytes is not modelled.
\<close>

fun fastq_loop :: "string list \<Rightarrow> nat \<Rightarrow> nat \<Rightarrow> uint8_t list \<Rightarrow> nat \<Rightarrow> exit_failure + uint8_t list" where
  "fastq_loop [] num_reads kmer_length encoded_reads total_reads = Inr encoded_reads"
| "fastq_loop (line # lines) num_reads kmer_length encoded_reads total_reads =
     (case process_record kmer_length line encoded_reads of
        Skipped \<Rightarrow> fastq_loop lines num_reads kmer_length encoded_reads total_reads
      | Exited e \<Rightarrow> Inl e
      | Encoded encoded_reads \<Rightarrow>
          (let total_reads = total_reads + 1
           in if total_reads = num_reads then Inr encoded_reads
              else fastq_loop lines num_reads kmer_length encoded_reads total_reads))"

text \<open>
  \<open>process_fastq\<close>. The gzip decoder is outside the repository: \<open>gz_lines\<close> is
  the function from the bytes of the input file to the sequence lines of its
  records. The result is \<open>total_bases\<close> and the file system after the call, or
  the reason of the \<open>exit\<close>.
\<close>

definition process_fastq ::
  "(uint8_t list \<Rightarrow> string list) \<Rightarrow> filesystem \<Rightarrow> string \<Rightarrow> string \<Rightarrow> nat \<Rightarrow> nat
     \<Rightarrow> exit_failure + (nat \<times> filesystem)" where
  "process_fastq gz_lines fs input_file output_file num_reads kmer_length =
     (if files fs output_file \<noteq> None then Inr (0, fs)
      else (case files fs input_file of
              None \<Rightarrow> Inl Failed_to_open_FASTQ
            | Some gz \<Rightarrow>
                (case fastq_loop (gz_lines gz) num_reads kmer_length [] 0 of
                   Inl e \<Rightarrow> Inl e
                 | Inr encoded_reads \<Rightarrow>
                     (let total_bases = length encoded_reads
                      in Inr (total_bases,
                              save_large_array_to_file fs output_file encoded_reads total_bases)))))"


section \<open>Lemmas on words\<close>

lemma three_mask: "(3 :: 'a::len word) = mask 2"
  by (simp add: mask_eq_exp_minus_1)

lemma and3: "(c :: 8 word) \<le> 3 \<Longrightarrow> c AND 3 = c"
proof -
  assume "c \<le> 3"
  then have "c < 2 ^ 2" by (simp add: word_less_nat_alt word_le_nat_alt)
  then show ?thesis unfolding three_mask by (rule less_mask_eq)
qed

lemma mod4: "(c :: 8 word) mod 4 = c AND 3"
  using word_mod_2p_is_mask [of 2 c] by (simp add: three_mask)

lemma pack_bits_eq: "pack_bits buffer bp a = buffer OR push_bit (6 - bp) (a AND 3)"
  unfolding pack_bits_def three_mask
  by (rule bit_word_eqI) (auto simp: bit_simps)

lemma extract_bits_eq: "extract_bits buffer bp = drop_bit (6 - bp) buffer AND 3"
  unfolding extract_bits_def three_mask
  by (rule bit_word_eqI) (auto simp: bit_simps)

section \<open>Lemmas on the writer\<close>

lemma list4_induct [case_names Nil One Two Three Four]:
  assumes "P []" and "\<And>a. P [a]" and "\<And>a b. P [a, b]" and "\<And>a b c. P [a, b, c]"
    and "\<And>a b c d xs. P xs \<Longrightarrow> P (a # b # c # d # xs)"
  shows "P xs"
proof (induction xs rule: length_induct)
  case (1 xs)
  show ?case
  proof (cases xs)
    case Nil then show ?thesis using assms(1) by simp
  next
    case (Cons a xs1)
    note c1 = this
    show ?thesis
    proof (cases xs1)
      case Nil then show ?thesis using assms(2) c1 by simp
    next
      case (Cons b xs2)
      note c2 = this
      show ?thesis
      proof (cases xs2)
        case Nil then show ?thesis using assms(3) c1 c2 by simp
      next
        case (Cons c xs3)
        note c3 = this
        show ?thesis
        proof (cases xs3)
          case Nil then show ?thesis using assms(4) c1 c2 c3 by simp
        next
          case (Cons d xs4)
          have "P xs4" using 1 c1 c2 c3 Cons by simp
          then show ?thesis using assms(5) c1 c2 c3 Cons by simp
        qed
      qed
    qed
  qed
qed

lemma save_loop_written:
  "save_loop arr w buf bp = (case save_loop arr [] buf bp of (w', r) \<Rightarrow> (w @ w', r))"
proof (induction arr arbitrary: w buf bp)
  case Nil show ?case by simp
next
  case (Cons a arr)
  show ?case
  proof (cases "bp = 6")
    case True
    then show ?thesis
      using Cons [of "w @ [pack_bits buf bp a]" 0 0] Cons [of "[pack_bits buf bp a]" 0 0]
      by (simp add: Let_def split: prod.splits)
  next
    case False
    then show ?thesis
      using Cons [of w "pack_bits buf bp a" "bp + 2"]
      by (simp add: Let_def split: prod.splits)
  qed
qed

lemma save_loop_4:
  "save_loop (a # b # c # d # xs) [] 0 0 = (case save_loop xs [] 0 0 of (w, r) \<Rightarrow> (byte4 a b c d # w, r))"
  using save_loop_written [of xs "[byte4 a b c d]" 0 0]
  by (simp add: Let_def pack_bits_eq byte4_def or.assoc)

lemma pack_Nil: "pack [] = []" by (simp add: pack_def)
lemma pack_1: "pack [a] = [push_bit 6 (a AND 3)]" by (simp add: pack_def pack_bits_eq Let_def)
lemma pack_2: "pack [a, b] = [push_bit 6 (a AND 3) OR push_bit 4 (b AND 3)]" by (simp add: pack_def pack_bits_eq Let_def)
lemma pack_3: "pack [a, b, c] = [push_bit 6 (a AND 3) OR push_bit 4 (b AND 3) OR push_bit 2 (c AND 3)]" by (simp add: pack_def pack_bits_eq Let_def or.assoc)
lemma pack_4: "pack (a # b # c # d # xs) = byte4 a b c d # pack xs"
  unfolding pack_def save_loop_4 by (simp split: prod.splits)

lemma pack_append: "length pre mod 4 = 0 \<Longrightarrow> pack (pre @ xs) = pack pre @ pack xs"
  by (induction pre rule: list4_induct) (simp_all add: pack_4 pack_Nil)

lemma length_pack: "length (pack xs) = (length xs + 3) div 4"
  by (induction xs rule: list4_induct) (simp_all add: pack_4 pack_Nil pack_1 pack_2 pack_3)

lemma save_loop_map: "save_loop (map (\<lambda>x. x mod 4) arr) w buf bp = save_loop arr w buf bp"
  by (induction arr arbitrary: w buf bp) (simp_all add: Let_def pack_bits_eq mod4)


section \<open>Lemmas on the reader\<close>

lemma extract_byte4:
  "extract_bits (byte4 a b c d) 0 = a AND 3"
  "extract_bits (byte4 a b c d) 2 = b AND 3"
  "extract_bits (byte4 a b c d) 4 = c AND 3"
  "extract_bits (byte4 a b c d) 6 = d AND 3"
  unfolding extract_bits_eq byte4_def three_mask
  by (rule bit_word_eqI, auto simp: bit_simps)+

lemma extract_tail:
  "extract_bits (push_bit 6 (a AND 3)) 0 = a AND 3"
  "extract_bits (push_bit 6 (a AND 3) OR push_bit 4 (b AND 3)) 0 = a AND 3"
  "extract_bits (push_bit 6 (a AND 3) OR push_bit 4 (b AND 3)) 2 = b AND 3"
  "extract_bits (push_bit 6 (a AND 3) OR push_bit 4 (b AND 3) OR push_bit 2 (c AND 3)) 0 = a AND 3"
  "extract_bits (push_bit 6 (a AND 3) OR push_bit 4 (b AND 3) OR push_bit 2 (c AND 3)) 2 = b AND 3"
  "extract_bits (push_bit 6 (a AND 3) OR push_bit 4 (b AND 3) OR push_bit 2 (c AND 3)) 4 = c AND 3"
  unfolding extract_bits_eq three_mask
  by (rule bit_word_eqI, auto simp: bit_simps)+

lemma read_loop_0:
  "read_loop [] buf 0 (Suc n) = extract_bits buf 0 # read_loop [] buf 2 n"
  "read_loop (b # bs) buf 0 (Suc n) = extract_bits b 0 # read_loop bs b 2 n"
  by (simp_all add: numeral_2_eq_2)

lemma read_loop_246:
  "read_loop fl buf 2 (Suc n) = extract_bits buf 2 # read_loop fl buf 4 n"
  "read_loop fl buf 4 (Suc n) = extract_bits buf 4 # read_loop fl buf 6 n"
  "read_loop fl buf 6 (Suc n) = extract_bits buf 6 # read_loop fl buf 0 n"
  by simp_all

lemmas read_loop_steps = read_loop.simps(1) read_loop_0 read_loop_246

lemma read_loop_1: "read_loop (b # bs) buf 0 (Suc 0) = [extract_bits b 0]"
  by (simp only: read_loop_steps)
lemma read_loop_2: "read_loop (b # bs) buf 0 (Suc (Suc 0)) = [extract_bits b 0, extract_bits b 2]"
  by (simp only: read_loop_steps)
lemma read_loop_3: "read_loop (b # bs) buf 0 (Suc (Suc (Suc 0))) = [extract_bits b 0, extract_bits b 2, extract_bits b 4]"
  by (simp only: read_loop_steps)
lemma read_loop_4:
  "read_loop (b # bs) buf 0 (Suc (Suc (Suc (Suc n)))) =
     extract_bits b 0 # extract_bits b 2 # extract_bits b 4 # extract_bits b 6 # read_loop bs b 0 n"
  by (simp only: read_loop_steps)

lemma read_loop_Cons:
  "read_loop (b # bs) buf 0 n =
     take n [extract_bits b 0, extract_bits b 2, extract_bits b 4, extract_bits b 6] @ read_loop bs b 0 (n - 4)"
proof -
  consider "n = 0" | "n = Suc 0" | "n = Suc (Suc 0)" | "n = Suc (Suc (Suc 0))"
    | m where "n = Suc (Suc (Suc (Suc m)))"
    by (metis not0_implies_Suc)
  then show ?thesis
  proof cases
    case 1 then show ?thesis by simp
  next
    case 2 then show ?thesis by (simp add: read_loop_1 del: read_loop.simps(2))
  next
    case 3 then show ?thesis by (simp add: read_loop_2 del: read_loop.simps(2))
  next
    case 4 then show ?thesis by (simp add: read_loop_3 del: read_loop.simps(2))
  next
    case 5 then show ?thesis by (simp add: read_loop_4 del: read_loop.simps(2))
  qed
qed

lemma length_read_loop: "length (read_loop fl buf bp n) = n"
  by (induction n arbitrary: fl buf bp) (simp_all add: Let_def split: prod.splits)

lemma read_loop_le3: "x \<in> set (read_loop fl buf bp n) \<Longrightarrow> x \<le> 3"
  by (induction n arbitrary: fl buf bp)
     (auto simp add: Let_def extract_bits_eq word_and_le1 split: prod.splits if_splits)

lemma read_loop_nth:
  "i < n \<Longrightarrow> (n + 3) div 4 \<le> length bytes \<Longrightarrow>
   read_loop bytes buf 0 n ! i = extract_bits (bytes ! (i div 4)) (2 * (i mod 4))"
proof (induction bytes arbitrary: n i buf)
  case Nil
  then show ?case by simp
next
  case (Cons b bs)
  let ?l = "[extract_bits b 0, extract_bits b 2, extract_bits b 4, extract_bits b 6]"
  show ?case
  proof (cases "i < 4")
    case True
    then consider "i = 0" | "i = 1" | "i = 2" | "i = 3" by linarith
    then have "?l ! i = extract_bits b (2 * (i mod 4))" by cases simp_all
    moreover have "i div 4 = 0" using True by simp
    ultimately show ?thesis
      using True Cons.prems by (simp add: read_loop_Cons nth_append del: read_loop.simps(2))
  next
    case False
    then obtain j where j: "i = j + 4" by (metis add.commute le_Suc_ex not_less)
    have "j < n - 4" using Cons.prems j by simp
    moreover have "(n - 4 + 3) div 4 \<le> length bs" using Cons.prems j by simp
    ultimately have "read_loop bs b 0 (n - 4) ! j = extract_bits (bs ! (j div 4)) (2 * (j mod 4))"
      by (rule Cons.IH)
    moreover have "(j + 4) div 4 = Suc (j div 4)" "(j + 4) mod 4 = j mod 4" by simp_all
    ultimately show ?thesis
      using False Cons.prems j by (simp add: read_loop_Cons nth_append min_def del: read_loop.simps)
  qed
qed

lemma read_loop_pack:
  "read_loop (pack seq) buf 0 (length seq) = map (\<lambda>c. c AND 3) seq"
proof (induction seq arbitrary: buf rule: list4_induct)
  case Nil show ?case by simp
next
  case (One a) show ?case by (simp only: pack_1 read_loop_1 length_Cons list.size(3) extract_tail list.map)
next
  case (Two a b) show ?case by (simp only: pack_2 read_loop_2 length_Cons list.size(3) extract_tail list.map)
next
  case (Three a b c) show ?case by (simp only: pack_3 read_loop_3 length_Cons list.size(3) extract_tail list.map)
next
  case (Four a b c d xs)
  show ?case by (simp only: pack_4 read_loop_4 length_Cons extract_byte4 list.map Four.IH)
qed

lemma save_loop_inv:
  "save_loop seq [] 0 0 = (written, buffer, bp) \<Longrightarrow>
     length written = length seq div 4 \<and> bp = 2 * (length seq mod 4) \<and> take_bit (8 - bp) buffer = 0"
proof (induction seq arbitrary: written buffer bp rule: list4_induct)
  case Nil then show ?case by simp
next
  case (One a)
  have "take_bit 6 (push_bit 6 (a AND 3) :: 8 word) = 0"
    by (rule bit_word_eqI) (auto simp: bit_simps)
  with One show ?case by (auto simp add: Let_def pack_bits_eq)
next
  case (Two a b)
  have "take_bit 4 (push_bit 6 (a AND 3) OR push_bit 4 (b AND 3) :: 8 word) = 0"
    by (rule bit_word_eqI) (auto simp: bit_simps)
  with Two show ?case by (auto simp add: Let_def pack_bits_eq)
next
  case (Three a b c)
  have "take_bit 2 ((push_bit 6 (a AND 3) OR push_bit 4 (b AND 3)) OR push_bit 2 (c AND 3) :: 8 word) = 0"
    by (rule bit_word_eqI) (auto simp: bit_simps)
  with Three show ?case by (auto simp add: Let_def pack_bits_eq)
next
  case (Four a b c d xs)
  from Four.prems obtain w' where w': "save_loop xs [] 0 0 = (w', buffer, bp)"
    and "written = byte4 a b c d # w'"
    unfolding save_loop_4 by (auto split: prod.splits)
  with Four.IH [OF w'] show ?case by auto
qed

lemma map_and3: "\<forall>c \<in> set seq. c \<le> 3 \<Longrightarrow> map (\<lambda>c. c AND 3) seq = (seq :: uint8_t list)"
  by (induction seq) (simp_all add: and3)

section \<open>The claims on the bit-pack stream\<close>

text \<open>
  Claim C1 (round trip). For every sequence of codes, each in \<open>[0,3]\<close>, of any
  length, unpacking the packed bytes with the sequence's own length gives the
  sequence back; so does reading back, with \<open>read_large_array_from_file\<close>, a
  file written by \<open>save_large_array_to_file\<close>.
\<close>

theorem roundtrip:
  assumes "\<forall>c \<in> set seq. c \<le> 3"
  shows "unpack (pack seq) (length seq) = seq \<and>
         (writable fs filename \<longrightarrow> length arr = length seq \<longrightarrow>
            read_large_array_from_file
              (save_large_array_to_file fs filename seq (length seq)) filename arr (length seq) = seq)"
  using assms
  by (simp add: unpack_def read_loop_pack map_and3 read_large_array_from_file_def
        save_large_array_to_file_def del: read_loop.simps)

theorem roundtrip_witness:
  "list_all (\<lambda>c. c \<le> 3) [0, 1, 2, 3, 3, 2 :: uint8_t] \<and>
   unpack (pack [0, 1, 2, 3, 3, 2]) 6 = [0, 1, 2, 3, 3, 2] \<and>
   read_large_array_from_file
     (save_large_array_to_file \<lparr>files = Map.empty, writable = (\<lambda>f. True)\<rparr> ''out.bin'' [0, 1, 2, 3, 3, 2] 6)
     ''out.bin'' [9, 9, 9, 9, 9, 9] 6 = [0, 1, 2, 3, 3, 2]"
proof -
  have h: "\<forall>c \<in> set [0, 1, 2, 3, 3, 2 :: uint8_t]. c \<le> 3" by simp
  have l: "length [0, 1, 2, 3, 3, 2 :: uint8_t] = 6" by simp
  show ?thesis
    using h roundtrip [OF h, of "\<lparr>files = Map.empty, writable = (\<lambda>f. True)\<rparr>" "''out.bin''"
        "[9, 9, 9, 9, 9, 9]", unfolded l]
    by simp
qed

text \<open>
  Claim C4 (unpack indexing). When the stream has at least \<open>\<lceil>n/4\<rceil>\<close> bytes, the
  code at index \<open>i < n\<close> of \<open>unpack bytes n\<close> is
  \<^verbatim>\<open>(bytes[i/4] >> (6 - 2*(i%4))) & 3\<close>.
\<close>

theorem unpack_index:
  assumes "i < n" and "(n + 3) div 4 \<le> length bytes"
  shows "unpack bytes n ! i = drop_bit (6 - 2 * (i mod 4)) (bytes ! (i div 4)) AND 3"
  using assms by (simp add: unpack_def read_loop_nth extract_bits_eq del: read_loop.simps)

theorem unpack_index_witness:
  "(5::nat) < 6 \<and> (6 + 3) div 4 \<le> length [0x1B, 0xE4 :: uint8_t] \<and>
   unpack [0x1B, 0xE4] 6 ! 5 = drop_bit (6 - 2 * (5 mod 4)) ([0x1B, 0xE4] ! (5 div 4)) AND 3 \<and>
   unpack [0x1B, 0xE4] 6 ! 5 = 2"
  using unpack_index [of 5 6 "[0x1B, 0xE4]"]
  by simp

text \<open>
  Claim C6 (packing density and flush). The packed output has \<open>\<lceil>len/4\<rceil>\<close> bytes.
  After the loop, \<open>len div 4\<close> bytes are written, \<open>bit_position\<close> is
  \<open>2 * (len mod 4)\<close> and the bits of the pending byte that are not filled are
  zero; the output is the written bytes followed by the pending byte exactly
  when \<open>bit_position > 0\<close>. The empty sequence packs to no byte.
\<close>

theorem pack_density_flush:
  "length (pack seq) = (length seq + 3) div 4 \<and>
   (case save_loop seq [] 0 0 of
      (written, buffer, bit_position) \<Rightarrow>
        length written = length seq div 4 \<and>
        bit_position = 2 * (length seq mod 4) \<and>
        take_bit (8 - bit_position) buffer = 0 \<and>
        pack seq = (if bit_position > 0 then written @ [buffer] else written)) \<and>
   pack [] = []"
proof -
  obtain written buffer bp where s: "save_loop seq [] 0 0 = (written, buffer, bp)"
    by (metis prod_cases3)
  from save_loop_inv [OF s]
  have "length written = length seq div 4" "bp = 2 * (length seq mod 4)"
    "take_bit (8 - bp) buffer = 0"
    by auto
  moreover have "pack seq = (if bp > 0 then written @ [buffer] else written)"
    by (simp add: pack_def s)
  ultimately have "length written = length seq div 4 \<and> bp = 2 * (length seq mod 4) \<and>
      take_bit (8 - bp) buffer = 0 \<and>
      pack seq = (if bp > 0 then written @ [buffer] else written)"
    by blast
  then show ?thesis
    unfolding s prod.case using length_pack [of seq] pack_Nil by blast
qed

text \<open>
  Claim C9 (pack masks its inputs). Packing any bytes equals packing the bytes
  reduced modulo 4; replacing one element by its value modulo 4 leaves the
  whole packed output unchanged, so an out-of-range element contributes its
  two low bits only.
\<close>

theorem pack_masks_inputs:
  "pack arr = pack (map (\<lambda>x. x mod 4) arr) \<and>
   pack (pre @ x # post) = pack (pre @ (x mod 4) # post)"
proof -
  have a: "\<And>xs. pack xs = pack (map (\<lambda>x. x mod 4) xs)"
    by (simp add: pack_def save_loop_map)
  have "map (\<lambda>x. x mod 4) (pre @ x # post) = map (\<lambda>x. x mod 4) (pre @ (x mod 4) # post)"
    by (simp add: mod4)
  then have "pack (pre @ x # post) = pack (pre @ (x mod 4) # post)"
    using a [of "pre @ x # post"] a [of "pre @ (x mod 4) # post"] by simp
  with a show ?thesis by simp
qed

text \<open>
  Claim C10 (unpack output range). Whatever the bytes, \<open>unpack bytes n\<close>
  produces \<open>n\<close> codes and each of them is at most 3.
\<close>

theorem unpack_range:
  "length (unpack bytes n) = n \<and> (\<forall>i<n. unpack bytes n ! i \<le> 3)"
proof -
  have "unpack bytes n ! i \<le> 3" if "i < n" for i
  proof -
    from that have "unpack bytes n ! i \<in> set (unpack bytes n)"
      by (simp add: unpack_def length_read_loop del: read_loop.simps)
    then show ?thesis unfolding unpack_def by (rule read_loop_le3)
  qed
  then show ?thesis
    by (simp add: unpack_def length_read_loop del: read_loop.simps)
qed

theorem unpack_range_witness:
  "length (unpack [0xFF] 7) = 7 \<and> unpack [0xFF] 7 ! 6 \<le> 3"
  using unpack_range [of "[0xFF]" 7] by simp

text \<open>
  Claim C3 (pack byte layout), as amended. A group of four codes \<open>c0, c1, c2, c3\<close>
  that starts at an index divisible by 4 is packed into the byte
  \<^verbatim>\<open>(c0<<6)|(c1<<4)|(c2<<2)|c3\<close>; a final group of one to three codes is packed
  into one last byte, left-aligned from the most significant bit pair down, whose
  unused low bit pairs are zero. In particular \<open>pack [0,1,2,3] = [0x1B]\<close>,
  \<open>pack [3] = [0xC0]\<close> and \<open>pack [] = []\<close>.
\<close>

theorem pack_layout:
  assumes "length pre mod 4 = 0" and "c0 \<le> 3" and "c1 \<le> 3" and "c2 \<le> 3" and "c3 \<le> 3"
  shows "pack (pre @ c0 # c1 # c2 # c3 # post)
           = pack pre @ (push_bit 6 c0 OR push_bit 4 c1 OR push_bit 2 c2 OR c3) # pack post \<and>
         pack (pre @ [c0]) = pack pre @ [push_bit 6 c0] \<and>
         pack (pre @ [c0, c1]) = pack pre @ [push_bit 6 c0 OR push_bit 4 c1] \<and>
         pack (pre @ [c0, c1, c2]) = pack pre @ [push_bit 6 c0 OR push_bit 4 c1 OR push_bit 2 c2] \<and>
         take_bit 6 (push_bit 6 c0) = 0 \<and>
         take_bit 4 (push_bit 6 c0 OR push_bit 4 c1) = 0 \<and>
         take_bit 2 (push_bit 6 c0 OR push_bit 4 c1 OR push_bit 2 c2) = 0 \<and>
         pack [0, 1, 2, 3] = [0x1B] \<and> pack [3] = [0xC0] \<and> pack [] = []"
proof -
  have m: "c0 AND 3 = c0" "c1 AND 3 = c1" "c2 AND 3 = c2" "c3 AND 3 = c3"
    using assms by (simp_all add: and3)
  have "pack (pre @ c0 # c1 # c2 # c3 # post)
      = pack pre @ (push_bit 6 c0 OR push_bit 4 c1 OR push_bit 2 c2 OR c3) # pack post"
    using assms(1) by (simp only: pack_append pack_4 byte4_def m)
  moreover have "pack (pre @ [c0]) = pack pre @ [push_bit 6 c0]"
    using assms(1) by (simp only: pack_append pack_1 m)
  moreover have "pack (pre @ [c0, c1]) = pack pre @ [push_bit 6 c0 OR push_bit 4 c1]"
    using assms(1) by (simp only: pack_append pack_2 m)
  moreover have "pack (pre @ [c0, c1, c2]) = pack pre @ [push_bit 6 c0 OR push_bit 4 c1 OR push_bit 2 c2]"
    using assms(1) by (simp only: pack_append pack_3 m)
  moreover have "take_bit 6 (push_bit 6 c0) = 0"
    by (rule bit_word_eqI) (auto simp: bit_simps)
  moreover have "take_bit 4 (push_bit 6 c0 OR push_bit 4 c1) = 0"
    by (rule bit_word_eqI) (auto simp: bit_simps)
  moreover have "take_bit 2 (push_bit 6 c0 OR push_bit 4 c1 OR push_bit 2 c2) = 0"
    by (rule bit_word_eqI) (auto simp: bit_simps)
  moreover have "pack [0, 1, 2, 3] = [0x1B]" "pack [3] = [0xC0]" "pack [] = []"
    by (simp_all add: pack_def pack_bits_def Let_def)
  ultimately show ?thesis by blast
qed

theorem pack_layout_witness:
  "length [3, 2, 1, 0 :: uint8_t] mod 4 = 0 \<and>
   pack ([3, 2, 1, 0] @ 0 # 1 # 2 # 3 # [3]) = pack [3, 2, 1, 0] @ 0x1B # pack [3] \<and>
   pack ([3, 2, 1, 0] @ [2]) = pack [3, 2, 1, 0] @ [0x80] \<and>
   pack ([3, 2, 1, 0] @ [2, 1]) = pack [3, 2, 1, 0] @ [0x90] \<and>
   pack ([3, 2, 1, 0] @ [2, 1, 3]) = pack [3, 2, 1, 0] @ [0x9C]"
proof -
  have h: "length [3, 2, 1, 0 :: uint8_t] mod 4 = 0" by simp
  have a: "(0 :: uint8_t) \<le> 3" "(1 :: uint8_t) \<le> 3" "(2 :: uint8_t) \<le> 3" "(3 :: uint8_t) \<le> 3"
    by simp_all
  have "pack ([3, 2, 1, 0] @ 0 # 1 # 2 # 3 # [3]) = pack [3, 2, 1, 0] @ 0x1B # pack [3]"
    using pack_layout [OF h a(1) a(2) a(3) a(4), of "[3]"] by simp
  moreover have "pack ([3, 2, 1, 0] @ [2]) = pack [3, 2, 1, 0] @ [0x80] \<and>
      pack ([3, 2, 1, 0] @ [2, 1]) = pack [3, 2, 1, 0] @ [0x90] \<and>
      pack ([3, 2, 1, 0] @ [2, 1, 3]) = pack [3, 2, 1, 0] @ [0x9C]"
    using pack_layout [OF h a(3) a(2) a(4) a(4), of "[]"] by simp
  ultimately show ?thesis using h by blast
qed

text \<open>
  The claim as it is written gives \<open>0x17\<close> for \<open>pack [0,1,2,3]\<close>. The layout puts
  the bit pairs \<open>00 01 10 11\<close> into the byte, which is \<open>0x1B\<close>; \<open>0x17\<close> is
  \<open>00 01 01 11\<close>, the packing of \<open>[0,1,1,3]\<close>.
\<close>

theorem pack_layout_counterexample:
  "pack [0, 1, 2, 3] = [0x1B] \<and> pack [0, 1, 2, 3] \<noteq> [0x17]"
  by (simp add: pack_def pack_bits_def Let_def)

section \<open>Lemmas on the record-batch driver\<close>

lemma encode_bases_invalid:
  "j \<le> i \<Longrightarrow> i < kmer_length \<Longrightarrow> base_to_code (seq_at seq i) = 255 \<Longrightarrow>
   encode_bases seq kmer_length j encoded_reads = Inl (Invalid_base seq)"
proof (induction seq kmer_length j encoded_reads rule: encode_bases.induct)
  case (1 seq kmer_length j encoded_reads)
  show ?case
  proof (cases "base_to_code (seq_at seq j) = 255")
    case True
    with 1 show ?thesis by (subst encode_bases.simps) simp
  next
    case False
    with 1 have "j \<noteq> i" by auto
    with 1 have "j + 1 \<le> i" "j < kmer_length" by simp_all
    with 1 False show ?thesis by (subst encode_bases.simps) (simp add: Let_def)
  qed
qed

lemma process_record_Skipped:
  "process_record kmer_length line encoded_reads = Skipped \<longleftrightarrow>
     length (strip_newline line) < 32 \<or> CHR ''N'' \<in> set (strip_newline line)"
  by (auto simp: process_record_def Let_def split: sum.splits)

lemma fastq_loop_skip_prefix:
  "list_all (\<lambda>l. length (strip_newline l) < 32 \<or> CHR ''N'' \<in> set (strip_newline l)) pre \<Longrightarrow>
   fastq_loop (pre @ lines) num_reads kmer_length encoded_reads total_reads =
   fastq_loop lines num_reads kmer_length encoded_reads total_reads"
proof (induction pre)
  case Nil show ?case by simp
next
  case (Cons l pre)
  then have "process_record kmer_length l encoded_reads = Skipped"
    by (simp add: process_record_Skipped)
  with Cons show ?case by simp
qed

lemma fastq_loop_drop_skipped:
  assumes "length (strip_newline line) < 32 \<or> CHR ''N'' \<in> set (strip_newline line)"
  shows "fastq_loop (pre @ line # post) num_reads kmer_length encoded_reads total_reads =
         fastq_loop (pre @ post) num_reads kmer_length encoded_reads total_reads"
proof (induction pre arbitrary: encoded_reads total_reads)
  case Nil
  from assms have "process_record kmer_length line encoded_reads = Skipped"
    by (simp add: process_record_Skipped)
  then show ?case by simp
next
  case (Cons l pre)
  show ?case
    by (cases "process_record kmer_length l encoded_reads") (simp_all add: Cons Let_def)
qed

section \<open>The claims on the symbol codec and the driver\<close>

text \<open>
  Claim C5 (symbol codec). \<open>base_to_code\<close> maps \<open>A\<close>, \<open>C\<close>, \<open>G\<close>, \<open>T\<close> to 0, 1, 2, 3
  and every other character to the sentinel 255, which is not a code in
  \<open>[0,3]\<close>; so for the lowercase letters, \<open>N\<close>, \<open>-\<close> and the space.
\<close>

theorem base_to_code_mapping:
  "base_to_code CHR ''A'' = 0 \<and> base_to_code CHR ''C'' = 1 \<and>
   base_to_code CHR ''G'' = 2 \<and> base_to_code CHR ''T'' = 3 \<and>
   (c \<notin> {CHR ''A'', CHR ''C'', CHR ''G'', CHR ''T''} \<longrightarrow> base_to_code c = 255) \<and>
   (base_to_code c \<le> 3 \<longleftrightarrow> c \<in> {CHR ''A'', CHR ''C'', CHR ''G'', CHR ''T''}) \<and>
   \<not> (255 :: uint8_t) \<le> 3 \<and>
   base_to_code CHR ''a'' = 255 \<and> base_to_code CHR ''c'' = 255 \<and>
   base_to_code CHR ''g'' = 255 \<and> base_to_code CHR ''t'' = 255 \<and>
   base_to_code CHR ''N'' = 255 \<and> base_to_code CHR ''-'' = 255 \<and>
   base_to_code CHR '' '' = 255"
  by (simp add: base_to_code_def)

theorem base_to_code_mapping_witness:
  "CHR ''n'' \<notin> {CHR ''A'', CHR ''C'', CHR ''G'', CHR ''T''} \<and> base_to_code CHR ''n'' = 255 \<and>
   \<not> base_to_code CHR ''n'' \<le> 3"
  using base_to_code_mapping [of "CHR ''n''"] by simp

text \<open>
  Claim C2 (record pre-filter), as amended. For the window length
  \<open>kmer_length = 32\<close>, a record is skipped if and only if its sequence line is
  shorter than \<open>kmer_length\<close> or contains the character \<open>N\<close>. A skipped record
  is not an error and contributes nothing: the loop gives the same result as on
  the source without the record. The sequence line is the C string the code
  tests, \<open>strip_newline line\<close>: it ends before the first carriage return, line
  feed or NUL of the bytes read.
\<close>

theorem prefilter_skip:
  assumes "kmer_length = 32"
  shows "(process_record kmer_length line encoded_reads = Skipped \<longleftrightarrow>
            length (strip_newline line) < kmer_length \<or> CHR ''N'' \<in> set (strip_newline line)) \<and>
         (process_record kmer_length line encoded_reads = Skipped \<longrightarrow>
            fastq_loop (pre @ line # post) num_reads kmer_length encoded_reads' total_reads =
            fastq_loop (pre @ post) num_reads kmer_length encoded_reads' total_reads)"
  using assms fastq_loop_drop_skipped [of line pre post num_reads kmer_length encoded_reads' total_reads]
  by (simp add: process_record_Skipped)

theorem prefilter_skip_witness:
  "(32::nat) = 32 \<and>
   process_record 32 (''ACGTACGTACGTACGTACGT'' @ [CHR 0x00] @ ''ACGTACGTACGTACG'' @ [CHR 0x0A]) []
     = Skipped \<and>
   length (strip_newline (''ACGTACGTACGTACGTACGT'' @ [CHR 0x00] @ ''ACGTACGTACGTACG'' @ [CHR 0x0A])) = 20 \<and>
   fastq_loop ([''ACGTACGTACGTACGTACGTACGTACGTACGT''] @
                (''ACGTACGTACGTACGTACGT'' @ [CHR 0x00] @ ''ACGTACGTACGTACG'' @ [CHR 0x0A]) # [])
              1000000 32 [] 0 =
   fastq_loop ([''ACGTACGTACGTACGTACGTACGTACGTACGT''] @ []) 1000000 32 [] 0 \<and>
   strip_newline (''ACGTACGTACGTACGTACGTACGTACGTACGT'' @ [CHR 0x00] @ ''N'' @ [CHR 0x0A])
     = ''ACGTACGTACGTACGTACGTACGTACGTACGT'' \<and>
   process_record 32 (''ACGTACGTACGTACGTACGTACGTACGTACGT'' @ [CHR 0x00] @ ''N'' @ [CHR 0x0A]) []
     \<noteq> Skipped"
proof -
  let ?line = "''ACGTACGTACGTACGTACGT'' @ [CHR 0x00] @ ''ACGTACGTACGTACG'' @ [CHR 0x0A]"
  let ?line' = "''ACGTACGTACGTACGTACGTACGTACGTACGT'' @ [CHR 0x00] @ ''N'' @ [CHR 0x0A]"
  have s: "length (strip_newline ?line) = 20" by (simp add: strip_newline_def)
  have s': "strip_newline ?line' = ''ACGTACGTACGTACGTACGTACGTACGTACGT''"
    by (simp add: strip_newline_def)
  have a: "process_record 32 ?line [] = Skipped \<and>
      fastq_loop ([''ACGTACGTACGTACGTACGTACGTACGTACGT''] @ ?line # []) 1000000 32 [] 0 =
      fastq_loop ([''ACGTACGTACGTACGTACGTACGTACGTACGT''] @ []) 1000000 32 [] 0"
    using s prefilter_skip [of 32 ?line "[]" "[''ACGTACGTACGTACGTACGTACGTACGTACGT'']" "[]" 1000000 "[]" 0]
    by simp
  have b: "process_record 32 ?line' [] \<noteq> Skipped"
    using prefilter_skip [of 32 ?line' "[]" "[]" "[]" 0 "[]" 0] unfolding s' by simp
  from a b s s' show ?thesis by simp
qed

text \<open>
  The claim as it is written fails in both directions. A line of 32 characters
  with a lowercase \<open>a\<close> holds a character outside the alphabet and is not
  skipped at \<open>kmer_length = 32\<close>: the filter looks for \<open>N\<close> only, and the record
  ends the process. A line of 20 characters of the alphabet is skipped at
  \<open>kmer_length = 16\<close>: the filter compares the length with the constant 32.
\<close>

theorem prefilter_skip_counterexample:
  "CHR ''a'' \<in> set ''aCGTACGTACGTACGTACGTACGTACGTACGT'' \<and>
   CHR ''a'' \<notin> {CHR ''A'', CHR ''C'', CHR ''G'', CHR ''T''} \<and>
   process_record 32 ''aCGTACGTACGTACGTACGTACGTACGTACGT'' []
     = Exited (Invalid_base ''aCGTACGTACGTACGTACGTACGTACGTACGT'') \<and>
   length ''ACGTACGTACGTACGTACGT'' = 20 \<and>
   set ''ACGTACGTACGTACGTACGT'' \<subseteq> {CHR ''A'', CHR ''C'', CHR ''G'', CHR ''T''} \<and>
   process_record 16 ''ACGTACGTACGTACGTACGT'' [] = Skipped"
proof -
  have "process_record 32 ''aCGTACGTACGTACGTACGTACGTACGTACGT'' []
     = Exited (Invalid_base ''aCGTACGTACGTACGTACGTACGTACGTACGT'')"
    by (simp add: process_record_def strip_newline_def Let_def encode_bases.simps [of _ _ 0]
          seq_at_def base_to_code_def)
  moreover have "process_record 16 ''ACGTACGTACGTACGTACGT'' [] = Skipped"
    by (simp add: process_record_def strip_newline_def Let_def)
  ultimately show ?thesis by simp
qed

text \<open>
  Claim C7 (existing output). When the output file already exists,
  \<open>process_fastq\<close> returns 0 and leaves every file as it was, whatever the input.
\<close>

theorem existing_output_short_circuit:
  "files fs output_file \<noteq> None \<Longrightarrow>
   process_fastq gz_lines fs input_file output_file num_reads kmer_length = Inr (0, fs)"
  by (simp add: process_fastq_def)

theorem existing_output_short_circuit_witness:
  "files \<lparr>files = [''out.bin'' \<mapsto> [0x1B]], writable = (\<lambda>f. True)\<rparr> ''out.bin'' \<noteq> None \<and>
   process_fastq (\<lambda>gz. []) \<lparr>files = [''out.bin'' \<mapsto> [0x1B]], writable = (\<lambda>f. True)\<rparr>
     ''in.fastq.gz'' ''out.bin'' 1000000 32
   = Inr (0, \<lparr>files = [''out.bin'' \<mapsto> [0x1B]], writable = (\<lambda>f. True)\<rparr>)"
  using existing_output_short_circuit
    [of "\<lparr>files = [''out.bin'' \<mapsto> [0x1B]], writable = (\<lambda>f. True)\<rparr>" "''out.bin''" "\<lambda>gz. []"
        "''in.fastq.gz''" 1000000 32]
  by simp

text \<open>
  Claim C8 (an invalid symbol at the encode stage is fatal). For a record that
  passes the filter of the loop, if one of the first \<open>kmer_length\<close> characters
  of its line has code 255, the iteration ends in \<open>exit\<close>: so does the loop
  whatever its state, and so does \<open>process_fastq\<close> when only skipped records
  precede the record. The record is neither skipped nor is the loop continued.
  The line, its length and its characters are those of the C string
  \<open>strip_newline line\<close>, which ends before the first carriage return, line feed
  or NUL of the bytes read.
\<close>

theorem invalid_base_fatal:
  assumes "\<not> (length (strip_newline line) < 32 \<or> CHR ''N'' \<in> set (strip_newline line))"
    and "i < kmer_length" and "i < length (strip_newline line)"
    and "base_to_code (strip_newline line ! i) = 255"
  shows "process_record kmer_length line encoded_reads = Exited (Invalid_base (strip_newline line)) \<and>
         fastq_loop (line # lines) num_reads kmer_length encoded_reads total_reads
           = Inl (Invalid_base (strip_newline line)) \<and>
         (files fs output_file = None \<longrightarrow> files fs input_file = Some gz \<longrightarrow>
          gz_lines gz = pre @ line # lines \<longrightarrow>
          list_all (\<lambda>l. length (strip_newline l) < 32 \<or> CHR ''N'' \<in> set (strip_newline l)) pre \<longrightarrow>
          process_fastq gz_lines fs input_file output_file num_reads kmer_length
            = Inl (Invalid_base (strip_newline line)))"
proof -
  from assms have "base_to_code (seq_at (strip_newline line) i) = 255"
    by (simp add: seq_at_def)
  with assms(2) have "encode_bases (strip_newline line) kmer_length 0 encoded_reads
      = Inl (Invalid_base (strip_newline line))" for encoded_reads
    by (intro encode_bases_invalid [of 0 i]) simp_all
  with assms(1) have r: "process_record kmer_length line encoded_reads
      = Exited (Invalid_base (strip_newline line))" for encoded_reads
    by (simp add: process_record_def Let_def)
  then have l: "fastq_loop (line # lines) num_reads kmer_length encoded_reads total_reads
      = Inl (Invalid_base (strip_newline line))" for encoded_reads total_reads
    by simp
  show ?thesis
    using r l by (simp add: process_fastq_def fastq_loop_skip_prefix)
qed

theorem invalid_base_fatal_witness:
  "process_record 32 (''ACGTACGTACGTACGTaCGTACGTACGTACGTAC'' @ [CHR 0x0A]) [1, 2]
     = Exited (Invalid_base ''ACGTACGTACGTACGTaCGTACGTACGTACGTAC'') \<and>
   fastq_loop [''ACGTACGTACGTACGTaCGTACGTACGTACGTAC'' @ [CHR 0x0A], ''ACGT''] 1000000 32 [1, 2] 0
     = Inl (Invalid_base ''ACGTACGTACGTACGTaCGTACGTACGTACGTAC'') \<and>
   process_fastq (\<lambda>gz. [''ACGT'', ''ACGTACGTACGTACGTaCGTACGTACGTACGTAC'' @ [CHR 0x0A], ''ACGT''])
     \<lparr>files = [''in.fastq.gz'' \<mapsto> []], writable = (\<lambda>f. True)\<rparr> ''in.fastq.gz'' ''out.bin'' 1000000 32
     = Inl (Invalid_base ''ACGTACGTACGTACGTaCGTACGTACGTACGTAC'')"
proof -
  let ?line = "''ACGTACGTACGTACGTaCGTACGTACGTACGTAC'' @ [CHR 0x0A]"
  have s: "strip_newline ?line = ''ACGTACGTACGTACGTaCGTACGTACGTACGTAC''"
    by (simp add: strip_newline_def)
  have h1: "\<not> (length (strip_newline ?line) < 32 \<or> CHR ''N'' \<in> set (strip_newline ?line))"
    unfolding s by simp
  have h2: "(16::nat) < 32" by simp
  have h3: "16 < length (strip_newline ?line)" unfolding s by simp
  have h4: "base_to_code (strip_newline ?line ! 16) = 255"
    unfolding s by (simp add: base_to_code_def)
  have h5: "list_all (\<lambda>l. length (strip_newline l) < 32 \<or> CHR ''N'' \<in> set (strip_newline l)) [''ACGT'']"
    by (simp add: strip_newline_def)
  let ?fs = "\<lparr>files = [''in.fastq.gz'' \<mapsto> []], writable = (\<lambda>f. True)\<rparr>"
  have f1: "files ?fs ''out.bin'' = None" by simp
  have f2: "files ?fs ''in.fastq.gz'' = Some []" by simp
  have f3: "(\<lambda>gz. [''ACGT'', ?line, ''ACGT'']) [] = [''ACGT''] @ ?line # [''ACGT'']" by simp
  note t = invalid_base_fatal [OF h1 h2 h3 h4, of "[1, 2]" "[''ACGT'']" 1000000 0
        ?fs "''out.bin''" "''in.fastq.gz''" "[]" "\<lambda>gz. [''ACGT'', ?line, ''ACGT'']" "[''ACGT'']",
        unfolded s]
  from t have c1: "process_record 32 ?line [1, 2]
      = Exited (Invalid_base ''ACGTACGTACGTACGTaCGTACGTACGTACGTAC'')"
    by (rule conjunct1)
  from t have c2: "fastq_loop [?line, ''ACGT''] 1000000 32 [1, 2] 0
      = Inl (Invalid_base ''ACGTACGTACGTACGTaCGTACGTACGTACGTAC'')"
    by (rule conjunct2 [THEN conjunct1])
  have c3: "process_fastq (\<lambda>gz. [''ACGT'', ?line, ''ACGT'']) ?fs ''in.fastq.gz'' ''out.bin'' 1000000 32
      = Inl (Invalid_base ''ACGTACGTACGTACGTaCGTACGTACGTACGTAC'')"
    by (rule t [THEN conjunct2, THEN conjunct2, THEN mp, THEN mp, THEN mp, THEN mp, OF f1 f2 f3 h5])
  from c1 c2 c3 show ?thesis by (intro conjI)
qed

end
